theory Spec2Isabelle
  imports Main "HOL-Library.Sublist"
begin

section \<open>SimpleDiff: the data model\<close>

text \<open>
  A line is a JavaScript string. A change object \<open>{type, value, originalIndex, modifiedIndex}\<close>
  is a tagged value; the fields are kept in the order the source writes them
  (\<open>value\<close> first, then the indices the entry carries).
\<close>

type_synonym line = string

datatype change =
    Equal line nat nat
  | Delete line nat
  | Insert line nat

text \<open>
  The program state a call works on: the two argument arrays (JavaScript passes them by
  reference, so the function could write to them) and the local variables \<open>changes\<close>,
  \<open>i\<close> and \<open>j\<close>. The functions below take any extension of the record, whose
  \<open>more\<close> part stands for everything else the program holds.
\<close>

record state =
  originalLines :: "line list"
  modifiedLines :: "line list"
  changes :: "change list"
  i :: nat
  j :: nat

subsection \<open>Array primitives\<close>

text \<open>\<open>xs[k]\<close>: reading past the end of an array yields \<open>undefined\<close>, here \<open>None\<close>.\<close>

definition elem_at :: "'a list \<Rightarrow> nat \<Rightarrow> 'a option" where
  "elem_at xs k = (if k < length xs then Some (xs ! k) else None)"

text \<open>
  \<open>xs.includes(x, fromIndex)\<close>: is \<open>x\<close> among the elements at positions
  \<open>fromIndex, fromIndex + 1, ...\<close>? An array of strings holds no \<open>undefined\<close>,
  so searching for \<open>undefined\<close> finds nothing.
\<close>

definition array_includes :: "line list \<Rightarrow> line option \<Rightarrow> nat \<Rightarrow> bool" where
  "array_includes xs x fromIndex =
     (case x of None \<Rightarrow> False | Some v \<Rightarrow> v \<in> set (drop fromIndex xs))"

definition push :: "'a state_scheme \<Rightarrow> change \<Rightarrow> 'a state_scheme" where
  "push s c = s\<lparr>changes := changes s @ [c]\<rparr>"

subsection \<open>The body of the main loop\<close>

definition originalLine :: "'a state_scheme \<Rightarrow> line option" where
  "originalLine s = elem_at (originalLines s) (i s)"

definition modifiedLine :: "'a state_scheme \<Rightarrow> line option" where
  "modifiedLine s = elem_at (modifiedLines s) (j s)"

definition originalFoundInModified :: "'a state_scheme \<Rightarrow> bool" where
  "originalFoundInModified s =
     (j s < length (modifiedLines s) \<and> originalLine s \<noteq> None \<and>
      array_includes (modifiedLines s) (originalLine s) (j s))"

definition modifiedFoundInOriginal :: "'a state_scheme \<Rightarrow> bool" where
  "modifiedFoundInOriginal s =
     (i s < length (originalLines s) \<and> modifiedLine s \<noteq> None \<and>
      array_includes (originalLines s) (modifiedLine s) (i s))"

text \<open>The five arms of the \<open>if\<close>/\<open>else\<close> chain, tested in the order of the source.\<close>

datatype branch = BEqual | BDelete | BInsert | BDeleteInsert | BDrain

definition branch :: "'a state_scheme \<Rightarrow> branch" where
  "branch s =
     (if originalLine s = modifiedLine s \<and> i s < length (originalLines s)
         \<and> j s < length (modifiedLines s) then BEqual
      else if i s < length (originalLines s) \<and> \<not> originalFoundInModified s then BDelete
      else if j s < length (modifiedLines s) \<and> \<not> modifiedFoundInOriginal s then BInsert
      else if i s < length (originalLines s) \<and> j s < length (modifiedLines s) then BDeleteInsert
      else BDrain)"

text \<open>The two inner loops of the last arm.\<close>

function drain_original :: "'a state_scheme \<Rightarrow> 'a state_scheme" where
  "drain_original s =
     (if i s < length (originalLines s)
      then drain_original ((push s (Delete (originalLines s ! i s) (i s)))\<lparr>i := i s + 1\<rparr>)
      else s)"
  by pat_completeness auto
termination
  by (relation "measure (\<lambda>s. length (originalLines s) - i s)") (auto simp: push_def)

function drain_modified :: "'a state_scheme \<Rightarrow> 'a state_scheme" where
  "drain_modified s =
     (if j s < length (modifiedLines s)
      then drain_modified ((push s (Insert (modifiedLines s ! j s) (j s)))\<lparr>j := j s + 1\<rparr>)
      else s)"
  by pat_completeness auto
termination
  by (relation "measure (\<lambda>s. length (modifiedLines s) - j s)") (auto simp: push_def)

declare drain_original.simps [simp del] drain_modified.simps [simp del]

text \<open>
  One iteration. Every arm that pushes \<open>originalLine\<close> is guarded by
  \<open>i < originalLines.length\<close>, and every arm that pushes \<open>modifiedLine\<close> by
  \<open>j < modifiedLines.length\<close>, so the pushed value is the array element itself.
\<close>

definition body :: "'a state_scheme \<Rightarrow> 'a state_scheme" where
  "body s =
     (case branch s of
        BEqual \<Rightarrow>
          (push s (Equal (originalLines s ! i s) (i s) (j s)))\<lparr>i := i s + 1, j := j s + 1\<rparr>
      | BDelete \<Rightarrow>
          (push s (Delete (originalLines s ! i s) (i s)))\<lparr>i := i s + 1\<rparr>
      | BInsert \<Rightarrow>
          (push s (Insert (modifiedLines s ! j s) (j s)))\<lparr>j := j s + 1\<rparr>
      | BDeleteInsert \<Rightarrow>
          (push (push s (Delete (originalLines s ! i s) (i s)))
                (Insert (modifiedLines s ! j s) (j s)))\<lparr>i := i s + 1, j := j s + 1\<rparr>
      | BDrain \<Rightarrow> drain_modified (drain_original s))"

definition running :: "'a state_scheme \<Rightarrow> bool" where
  "running s = (i s < length (originalLines s) \<or> j s < length (modifiedLines s))"

subsection \<open>The main loop and the entry point\<close>

function loop :: "'a state_scheme \<Rightarrow> 'a state_scheme" where
  "loop s = (if running s then loop (body s) else s)"
  by pat_completeness auto
termination
proof (relation "measure (\<lambda>s. (length (originalLines s) - i s)
                               + (length (modifiedLines s) - j s))")
  fix s :: "'a state_scheme"
  assume run: "running s"
  then have "branch s \<noteq> BDrain"
    by (auto simp: running_def branch_def originalFoundInModified_def
        modifiedFoundInOriginal_def)
  moreover have "branch s = BEqual \<or> branch s = BDeleteInsert \<Longrightarrow>
      i s < length (originalLines s) \<and> j s < length (modifiedLines s)"
    by (auto simp: branch_def split: if_splits)
  moreover have "branch s = BDelete \<Longrightarrow> i s < length (originalLines s)"
    by (auto simp: branch_def split: if_splits)
  moreover have "branch s = BInsert \<Longrightarrow> j s < length (modifiedLines s)"
    by (auto simp: branch_def split: if_splits)
  ultimately show "(body s, s) \<in> measure (\<lambda>s. (length (originalLines s) - i s)
                               + (length (modifiedLines s) - j s))"
    by (cases "branch s") (auto simp: body_def push_def)
qed simp

declare loop.simps [simp del]

text \<open>
  On entry the function declares \<open>changes = []\<close>, \<open>i = 0\<close> and \<open>j = 0\<close>; it returns
  \<open>changes\<close> when the loop ends.
\<close>

definition init :: "line list \<Rightarrow> line list \<Rightarrow> state" where
  "init a b = \<lparr>originalLines = a, modifiedLines = b, changes = [], i = 0, j = 0\<rparr>"

definition compareLineByLine :: "line list \<Rightarrow> line list \<Rightarrow> change list" where
  "compareLineByLine a b = changes (loop (init a b))"

text \<open>
  A call made in a program state \<open>s\<close> whose arrays are the arguments: whatever the locals
  held before, the declarations on entry reset them.
\<close>

definition invoke :: "'a state_scheme \<Rightarrow> 'a state_scheme" where
  "invoke s = loop (s\<lparr>changes := [], i := 0, j := 0\<rparr>)"

subsection \<open>Splitting a text into lines\<close>

text \<open>
  \<open>text.split('\n')\<close> with a one-character separator: the pieces of the text between
  the occurrences of the separator, in order (\<open>cur\<close> is the piece being read). The empty
  text gives one empty piece. Cutting at a separator does not depend on the alphabet, so
  the characters of the text are those of \<open>string\<close>.
\<close>

definition newline :: char where
  "newline = CHR 0x0A"

definition carriage_return :: char where
  "carriage_return = CHR 0x0D"

fun split_on :: "char \<Rightarrow> string \<Rightarrow> string \<Rightarrow> string list" where
  "split_on sep cur [] = [cur]"
| "split_on sep cur (c # cs) =
     (if c = sep then cur # split_on sep [] cs else split_on sep (cur @ [c]) cs)"

definition toLines :: "string \<Rightarrow> line list" where
  "toLines text = split_on newline [] text"

section \<open>Reading an edit script\<close>

text \<open>
  The entries of a script that consume a line of the original array (\<open>equal\<close> and
  \<open>delete\<close>), as pairs of \<open>originalIndex\<close> and \<open>value\<close>, in script order; and the
  same for the modified array (\<open>equal\<close> and \<open>insert\<close>, with \<open>modifiedIndex\<close>).
\<close>

fun orig_entries :: "change list \<Rightarrow> (nat \<times> line) list" where
  "orig_entries [] = []"
| "orig_entries (Equal v p q # cs) = (p, v) # orig_entries cs"
| "orig_entries (Delete v p # cs) = (p, v) # orig_entries cs"
| "orig_entries (Insert v q # cs) = orig_entries cs"

fun mod_entries :: "change list \<Rightarrow> (nat \<times> line) list" where
  "mod_entries [] = []"
| "mod_entries (Equal v p q # cs) = (q, v) # mod_entries cs"
| "mod_entries (Delete v p # cs) = mod_entries cs"
| "mod_entries (Insert v q # cs) = (q, v) # mod_entries cs"

text \<open>Replaying a script: the lines it consumes on either side.\<close>

definition original_side :: "change list \<Rightarrow> line list" where
  "original_side s = map snd (orig_entries s)"

definition modified_side :: "change list \<Rightarrow> line list" where
  "modified_side s = map snd (mod_entries s)"

text \<open>
  A script is well formed for two arrays when its original-side entries are exactly the
  lines of the original array, each with its own index, in index order, and its
  modified-side entries are exactly those of the modified array.
\<close>

definition well_formed :: "line list \<Rightarrow> line list \<Rightarrow> change list \<Rightarrow> bool" where
  "well_formed a b s = (orig_entries s = enumerate 0 a \<and> mod_entries s = enumerate 0 b)"





text \<open>
  The length of a longest common subsequence of two sequences, by the usual recursion;
  \<open>lcs_length_upper\<close> and \<open>lcs_length_attained\<close> below show that it is the greatest
  length of a sequence that is a subsequence of both.
\<close>

fun lcs_length :: "'a list \<Rightarrow> 'a list \<Rightarrow> nat" where
  "lcs_length [] ys = 0"
| "lcs_length (x # xs) [] = 0"
| "lcs_length (x # xs) (y # ys) =
     (if x = y then Suc (lcs_length xs ys)
      else max (lcs_length xs (y # ys)) (lcs_length (x # xs) ys))"

text \<open>
  Order inside a run of edits: between two \<open>equal\<close> entries (and before the first, and
  after the last) no \<open>delete\<close> comes after an \<open>insert\<close>. The flag says whether an
  \<open>insert\<close> has been seen since the last \<open>equal\<close>.
\<close>

fun ordered_from :: "bool \<Rightarrow> change list \<Rightarrow> bool" where
  "ordered_from seen [] = True"
| "ordered_from seen (Equal v p q # cs) = ordered_from False cs"
| "ordered_from seen (Delete v p # cs) = (\<not> seen \<and> ordered_from seen cs)"
| "ordered_from seen (Insert v q # cs) = ordered_from True cs"

definition deletes_before_inserts :: "change list \<Rightarrow> bool" where
  "deletes_before_inserts s = ordered_from False s"

text \<open>
  Where the order can fail: an \<open>insert\<close> entry directly followed by a \<open>delete\<close> entry is
  a crossing when the inserted line occurs in the original array at or after the deleted
  index, or the deleted line occurs in the modified array after the inserted index. Every
  other pair of neighbours passes.
\<close>

fun crossing :: "line list \<Rightarrow> line list \<Rightarrow> change \<Rightarrow> change \<Rightarrow> bool" where
  "crossing a b (Insert v q) (Delete w p) =
     (v \<in> set (drop p a) \<or> w \<in> set (drop (Suc q) b))"
| "crossing a b c d = True"

text \<open>
  The invariant of the main loop for this: the entries pushed so far have only crossings
  as \<open>insert\<close>-\<open>delete\<close> neighbours, and if the last entry is an \<open>insert\<close>, a
  \<open>delete\<close> of the current original line would be a crossing too.
\<close>

fun pending :: "'a state_scheme \<Rightarrow> change \<Rightarrow> bool" where
  "pending s (Insert v q) =
     (length (originalLines s) \<le> i s \<or>
      crossing (originalLines s) (modifiedLines s) (Insert v q)
        (Delete (originalLines s ! i s) (i s)))"
| "pending s c = True"

definition ordered_so_far :: "'a state_scheme \<Rightarrow> bool" where
  "ordered_so_far s =
     (successively (crossing (originalLines s) (modifiedLines s)) (changes s)
      \<and> (changes s = [] \<or> pending s (last (changes s))))"

text \<open>The entries one iteration of the main loop pushes.\<close>

definition emitted :: "'a state_scheme \<Rightarrow> change list" where
  "emitted s = drop (length (changes s)) (changes (body s))"

text \<open>\<open>lines.join(sep)\<close>, to state that splitting loses nothing.\<close>

fun join_with :: "char \<Rightarrow> string list \<Rightarrow> string" where
  "join_with sep [] = []"
| "join_with sep [l] = l"
| "join_with sep (l # l' # ls) = l @ sep # join_with sep (l' # ls)"

section \<open>Invariants of the main loop\<close>

text \<open>Which arm is taken, and what it leaves alone.\<close>

lemma branch_running: "running s \<Longrightarrow> branch s \<noteq> BDrain"
  by (auto simp: running_def branch_def originalFoundInModified_def
      modifiedFoundInOriginal_def)

lemma branch_BEqual:
  "branch s = BEqual \<Longrightarrow>
     i s < length (originalLines s) \<and> j s < length (modifiedLines s) \<and>
     originalLines s ! i s = modifiedLines s ! j s"
  by (auto simp: branch_def originalLine_def modifiedLine_def elem_at_def split: if_splits)

lemma branch_BDelete: "branch s = BDelete \<Longrightarrow> i s < length (originalLines s)"
  by (auto simp: branch_def split: if_splits)

lemma branch_BInsert: "branch s = BInsert \<Longrightarrow> j s < length (modifiedLines s)"
  by (auto simp: branch_def split: if_splits)

lemma branch_BDeleteInsert:
  "branch s = BDeleteInsert \<Longrightarrow>
     i s < length (originalLines s) \<and> j s < length (modifiedLines s)"
  by (auto simp: branch_def split: if_splits)

lemma body_originalLines: "running s \<Longrightarrow> originalLines (body s) = originalLines s"
  using branch_running [of s] by (cases "branch s") (simp_all add: body_def push_def)

lemma body_modifiedLines: "running s \<Longrightarrow> modifiedLines (body s) = modifiedLines s"
  using branch_running [of s] by (cases "branch s") (simp_all add: body_def push_def)

lemma orig_entries_append: "orig_entries (xs @ ys) = orig_entries xs @ orig_entries ys"
  by (induction xs rule: orig_entries.induct) simp_all

lemma mod_entries_append: "mod_entries (xs @ ys) = mod_entries xs @ mod_entries ys"
  by (induction xs rule: mod_entries.induct) simp_all

lemma drop_enumerate_step:
  "k < length xs \<Longrightarrow> drop k (enumerate 0 xs) = (k, xs ! k) # drop (Suc k) (enumerate 0 xs)"
  by (simp add: Cons_nth_drop_Suc [symmetric] nth_enumerate_eq)

lemma body_orig_entries:
  assumes "running s"
  shows "orig_entries (changes (body s)) @ drop (i (body s)) (enumerate 0 (originalLines (body s)))
         = orig_entries (changes s) @ drop (i s) (enumerate 0 (originalLines s))"
proof (cases "branch s")
  case BEqual
  with branch_BEqual [of s] show ?thesis
    by (simp add: body_def push_def orig_entries_append drop_enumerate_step)
next
  case BDelete
  with branch_BDelete [of s] show ?thesis
    by (simp add: body_def push_def orig_entries_append drop_enumerate_step)
next
  case BInsert
  then show ?thesis
    by (simp add: body_def push_def orig_entries_append)
next
  case BDeleteInsert
  with branch_BDeleteInsert [of s] show ?thesis
    by (simp add: body_def push_def orig_entries_append drop_enumerate_step)
next
  case BDrain
  with assms branch_running show ?thesis by blast
qed

lemma body_mod_entries:
  assumes "running s"
  shows "mod_entries (changes (body s)) @ drop (j (body s)) (enumerate 0 (modifiedLines (body s)))
         = mod_entries (changes s) @ drop (j s) (enumerate 0 (modifiedLines s))"
proof (cases "branch s")
  case BEqual
  with branch_BEqual [of s] show ?thesis
    by (simp add: body_def push_def mod_entries_append drop_enumerate_step)
next
  case BDelete
  then show ?thesis
    by (simp add: body_def push_def mod_entries_append)
next
  case BInsert
  with branch_BInsert [of s] show ?thesis
    by (simp add: body_def push_def mod_entries_append drop_enumerate_step)
next
  case BDeleteInsert
  with branch_BDeleteInsert [of s] show ?thesis
    by (simp add: body_def push_def mod_entries_append drop_enumerate_step)
next
  case BDrain
  with assms branch_running show ?thesis by blast
qed

lemma loop_final: "\<not> running (loop s)"
  by (induction s rule: loop.induct) (simp add: loop.simps)

lemma loop_originalLines: "originalLines (loop s) = originalLines s"
proof (induction s rule: loop.induct)
  case (1 s)
  then show ?case
    by (cases "running s") (simp_all add: loop.simps [of s] body_originalLines)
qed

lemma loop_modifiedLines: "modifiedLines (loop s) = modifiedLines s"
proof (induction s rule: loop.induct)
  case (1 s)
  then show ?case
    by (cases "running s") (simp_all add: loop.simps [of s] body_modifiedLines)
qed

lemma loop_orig_entries:
  "orig_entries (changes (loop s))
     = orig_entries (changes s) @ drop (i s) (enumerate 0 (originalLines s))"
proof (induction s rule: loop.induct)
  case (1 s)
  show ?case
  proof (cases "running s")
    case True
    with 1 body_orig_entries [of s] show ?thesis by (simp add: loop.simps [of s])
  next
    case False
    then show ?thesis by (simp add: loop.simps [of s] running_def)
  qed
qed

lemma loop_mod_entries:
  "mod_entries (changes (loop s))
     = mod_entries (changes s) @ drop (j s) (enumerate 0 (modifiedLines s))"
proof (induction s rule: loop.induct)
  case (1 s)
  show ?case
  proof (cases "running s")
    case True
    with 1 body_mod_entries [of s] show ?thesis by (simp add: loop.simps [of s])
  next
    case False
    then show ?thesis by (simp add: loop.simps [of s] running_def)
  qed
qed

lemma compare_orig_entries: "orig_entries (compareLineByLine a b) = enumerate 0 a"
  by (simp add: compareLineByLine_def loop_orig_entries init_def)

lemma compare_mod_entries: "mod_entries (compareLineByLine a b) = enumerate 0 b"
  by (simp add: compareLineByLine_def loop_mod_entries init_def)

lemma loop_identical:
  "originalLines s = modifiedLines s \<Longrightarrow> i s = j s \<Longrightarrow>
   changes (loop s)
     = changes s @ map (\<lambda>k. Equal (originalLines s ! k) k k) [i s..<length (originalLines s)]"
proof (induction s rule: loop.induct)
  case (1 s)
  show ?case
  proof (cases "running s")
    case True
    with 1(2,3) have lt: "i s < length (originalLines s)" by (auto simp: running_def)
    with 1(2,3) have br: "branch s = BEqual"
      by (simp add: branch_def originalLine_def modifiedLine_def)
    have "changes (loop (body s))
            = changes (body s) @ map (\<lambda>k. Equal (originalLines (body s) ! k) k k)
                [i (body s)..<length (originalLines (body s))]"
      using 1(2,3) br by (intro 1(1) [OF True]) (simp_all add: body_def push_def)
    with True lt br 1(3) show ?thesis
      by (simp add: loop.simps [of s] body_def push_def upt_conv_Cons)
  next
    case False
    then show ?thesis by (simp add: loop.simps [of s] running_def)
  qed
qed

lemma loop_modified_empty:
  "modifiedLines s = [] \<Longrightarrow>
   changes (loop s)
     = changes s @ map (\<lambda>k. Delete (originalLines s ! k) k) [i s..<length (originalLines s)]"
proof (induction s rule: loop.induct)
  case (1 s)
  show ?case
  proof (cases "running s")
    case True
    with 1(2) have lt: "i s < length (originalLines s)" by (auto simp: running_def)
    with 1(2) have br: "branch s = BDelete"
      by (simp add: branch_def originalFoundInModified_def)
    have "changes (loop (body s))
            = changes (body s) @ map (\<lambda>k. Delete (originalLines (body s) ! k) k)
                [i (body s)..<length (originalLines (body s))]"
      using 1(2) br by (intro 1(1) [OF True]) (simp_all add: body_def push_def)
    with True lt br show ?thesis
      by (simp add: loop.simps [of s] body_def push_def upt_conv_Cons)
  next
    case False
    then show ?thesis by (simp add: loop.simps [of s] running_def)
  qed
qed

lemma loop_original_empty:
  "originalLines s = [] \<Longrightarrow>
   changes (loop s)
     = changes s @ map (\<lambda>k. Insert (modifiedLines s ! k) k) [j s..<length (modifiedLines s)]"
proof (induction s rule: loop.induct)
  case (1 s)
  show ?case
  proof (cases "running s")
    case True
    with 1(2) have lt: "j s < length (modifiedLines s)" by (auto simp: running_def)
    with 1(2) have br: "branch s = BInsert"
      by (simp add: branch_def modifiedFoundInOriginal_def)
    have "changes (loop (body s))
            = changes (body s) @ map (\<lambda>k. Insert (modifiedLines (body s) ! k) k)
                [j (body s)..<length (modifiedLines (body s))]"
      using 1(2) br by (intro 1(1) [OF True]) (simp_all add: body_def push_def)
    with True lt br show ?thesis
      by (simp add: loop.simps [of s] body_def push_def upt_conv_Cons)
  next
    case False
    then show ?thesis by (simp add: loop.simps [of s] running_def)
  qed
qed

lemma drain_original_changes:
  "changes (drain_original s)
     = changes s @ map (\<lambda>k. Delete (originalLines s ! k) k) [i s..<length (originalLines s)]
   \<and> modifiedLines (drain_original s) = modifiedLines s
   \<and> j (drain_original s) = j s"
proof (induction s rule: drain_original.induct)
  case (1 s)
  show ?case
  proof (cases "i s < length (originalLines s)")
    case True
    with 1 show ?thesis
      by (simp add: drain_original.simps [of s] push_def upt_conv_Cons)
  next
    case False
    then show ?thesis by (simp add: drain_original.simps [of s])
  qed
qed

lemma drain_modified_changes:
  "changes (drain_modified s)
     = changes s @ map (\<lambda>k. Insert (modifiedLines s ! k) k) [j s..<length (modifiedLines s)]"
proof (induction s rule: drain_modified.induct)
  case (1 s)
  show ?case
  proof (cases "j s < length (modifiedLines s)")
    case True
    with 1 show ?thesis
      by (simp add: drain_modified.simps [of s] push_def upt_conv_Cons)
  next
    case False
    then show ?thesis by (simp add: drain_modified.simps [of s])
  qed
qed

lemma ordered_from_inserts: "ordered_from seen (map (\<lambda>k. Insert (f k) k) ks)"
  by (induction ks arbitrary: seen) simp_all

lemma ordered_from_deletes:
  "ordered_from False (map (\<lambda>k. Delete (f k) k) ks @ cs) = ordered_from False cs"
  by (induction ks) simp_all

lemma emitted_ordered: "deletes_before_inserts (emitted s)"
proof (cases "branch s")
  case BDrain
  then show ?thesis
    by (simp add: deletes_before_inserts_def emitted_def body_def drain_modified_changes
        drain_original_changes ordered_from_deletes ordered_from_inserts)
qed (simp_all add: deletes_before_inserts_def emitted_def body_def push_def)

lemma body_changes: "changes (body s) = changes s @ emitted s"
proof (cases "branch s")
  case BDrain
  then show ?thesis
    by (simp add: emitted_def body_def drain_modified_changes drain_original_changes)
qed (simp_all add: emitted_def body_def push_def)

text \<open>Two states that agree on the arrays and the locals stay in step.\<close>

lemma branch_agree:
  assumes "originalLines s = originalLines t" "modifiedLines s = modifiedLines t"
    "i s = i t" "j s = j t"
  shows "branch s = branch t"
  unfolding branch_def originalLine_def modifiedLine_def originalFoundInModified_def
    modifiedFoundInOriginal_def assms ..

lemma body_agree:
  assumes "originalLines s = originalLines t" "modifiedLines s = modifiedLines t"
    "i s = i t" "j s = j t" "changes s = changes t" "running s"
  shows "originalLines (body s) = originalLines (body t)
         \<and> modifiedLines (body s) = modifiedLines (body t)
         \<and> i (body s) = i (body t) \<and> j (body s) = j (body t)
         \<and> changes (body s) = changes (body t)"
proof -
  have br: "branch s = branch t" using assms(1-4) by (rule branch_agree)
  from assms(6) have ns: "branch s \<noteq> BDrain" by (rule branch_running)
  show ?thesis
  proof (cases "branch t")
    case BEqual
    moreover from BEqual br have "branch s = BEqual" by simp
    ultimately show ?thesis using assms(1-5) by (simp add: body_def push_def)
  next
    case BDelete
    moreover from BDelete br have "branch s = BDelete" by simp
    ultimately show ?thesis using assms(1-5) by (simp add: body_def push_def)
  next
    case BInsert
    moreover from BInsert br have "branch s = BInsert" by simp
    ultimately show ?thesis using assms(1-5) by (simp add: body_def push_def)
  next
    case BDeleteInsert
    moreover from BDeleteInsert br have "branch s = BDeleteInsert" by simp
    ultimately show ?thesis using assms(1-5) by (simp add: body_def push_def)
  next
    case BDrain
    with br ns show ?thesis by simp
  qed
qed

lemma loop_agree:
  "originalLines s = originalLines t \<Longrightarrow> modifiedLines s = modifiedLines t \<Longrightarrow>
   i s = i t \<Longrightarrow> j s = j t \<Longrightarrow> changes s = changes t \<Longrightarrow>
   changes (loop s) = changes (loop t)"
proof (induction s arbitrary: t rule: loop.induct)
  case (1 s)
  have run: "running s = running t" using 1(2-5) by (simp add: running_def)
  show ?case
  proof (cases "running s")
    case True
    from body_agree [OF 1(2-6) True] 1(1) [OF True, of "body t"]
    have "changes (loop (body s)) = changes (loop (body t))" by blast
    with True run show ?thesis by (simp add: loop.simps [of s] loop.simps [of t])
  next
    case False
    with run 1(6) show ?thesis by (simp add: loop.simps [of s] loop.simps [of t])
  qed
qed

lemma invoke_compare:
  "changes (invoke s) = compareLineByLine (originalLines s) (modifiedLines s)"
  unfolding invoke_def compareLineByLine_def
  by (rule loop_agree) (simp_all add: init_def)

lemma loop_more: "state.more (loop s) = state.more s"
proof (induction s rule: loop.induct)
  case (1 s)
  show ?case
  proof (cases "running s")
    case True
    from True have "branch s \<noteq> BDrain" by (rule branch_running)
    then have "state.more (body s) = state.more s"
      by (cases "branch s") (simp_all add: body_def push_def)
    with True 1 show ?thesis by (simp add: loop.simps [of s])
  next
    case False
    then show ?thesis by (simp add: loop.simps [of s])
  qed
qed

text \<open>The order of a \<open>delete\<close> and an \<open>insert\<close> over a whole script.\<close>

text \<open>
  With empty arrays nothing is a crossing, so \<open>crossing [] []\<close> forbids every
  \<open>insert\<close> directly followed by a \<open>delete\<close>: that is the order inside the runs of edits.
\<close>

lemma ordered_from_crossing:
  "ordered_from seen s
     = (successively (crossing [] []) s
        \<and> (seen \<longrightarrow> (case s of Delete v p # cs \<Rightarrow> False | _ \<Rightarrow> True)))"
proof (induction seen s rule: ordered_from.induct)
  case (1 seen)
  show ?case by simp
next
  case (2 seen v p q cs)
  then show ?case by (cases cs) (auto split: list.splits change.splits)
next
  case (3 seen v p cs)
  then show ?case by (cases cs) (auto split: list.splits change.splits)
next
  case (4 seen v q cs)
  then show ?case by (cases cs) (auto split: list.splits change.splits)
qed

lemma deletes_before_inserts_crossing:
  "deletes_before_inserts s = successively (crossing [] []) s"
  by (simp add: deletes_before_inserts_def ordered_from_crossing)

lemma branch_BInsert_found:
  assumes "branch s = BInsert" "i s < length (originalLines s)"
  shows "originalLines s ! i s \<in> set (drop (Suc (j s)) (modifiedLines s))"
proof -
  from assms(1) have jm: "j s < length (modifiedLines s)" by (rule branch_BInsert)
  from assms have ne: "originalLines s ! i s \<noteq> modifiedLines s ! j s"
    using jm by (auto simp: branch_def originalLine_def modifiedLine_def elem_at_def
        split: if_splits)
  from assms have "originalFoundInModified s"
    by (auto simp: branch_def split: if_splits)
  with assms(2) have "originalLines s ! i s \<in> set (drop (j s) (modifiedLines s))"
    by (simp add: originalFoundInModified_def originalLine_def elem_at_def array_includes_def)
  with jm ne show ?thesis
    by (simp add: Cons_nth_drop_Suc [symmetric])
qed

lemma branch_BDeleteInsert_found:
  assumes "branch s = BDeleteInsert"
  shows "modifiedLines s ! j s \<in> set (drop (Suc (i s)) (originalLines s))"
proof -
  from assms have lt: "i s < length (originalLines s)" "j s < length (modifiedLines s)"
    using branch_BDeleteInsert by blast+
  from assms lt have ne: "originalLines s ! i s \<noteq> modifiedLines s ! j s"
    by (auto simp: branch_def originalLine_def modifiedLine_def elem_at_def
        split: if_splits)
  from assms lt have "modifiedFoundInOriginal s"
    by (auto simp: branch_def split: if_splits)
  with lt have "modifiedLines s ! j s \<in> set (drop (i s) (originalLines s))"
    by (simp add: modifiedFoundInOriginal_def modifiedLine_def elem_at_def array_includes_def)
  with lt ne show ?thesis
    by (auto simp: Cons_nth_drop_Suc [symmetric])
qed

lemma successively_snoc:
  "successively P (xs @ [c]) \<longleftrightarrow> successively P xs \<and> (xs = [] \<or> P (last xs) c)"
  by (simp add: successively_append_iff)

lemma crossing_not_delete: "\<forall>v p. d \<noteq> Delete v p \<Longrightarrow> crossing a b c d"
  by (cases c; cases d) simp_all

lemma pending_crossing:
  "pending s c \<Longrightarrow> i s < length (originalLines s) \<Longrightarrow>
   crossing (originalLines s) (modifiedLines s) c (Delete (originalLines s ! i s) (i s))"
  by (cases c) simp_all

lemma body_ordered_so_far:
  assumes "running s" "ordered_so_far s"
  shows "ordered_so_far (body s)"
proof (cases "branch s")
  case BEqual
  with assms(2) show ?thesis
    by (simp add: ordered_so_far_def body_def push_def successively_snoc crossing_not_delete)
next
  case BDelete
  with branch_BDelete [of s] have lt: "i s < length (originalLines s)" by simp
  from assms(2) have "changes s = [] \<or>
      crossing (originalLines s) (modifiedLines s) (last (changes s))
        (Delete (originalLines s ! i s) (i s))"
    using pending_crossing [OF _ lt] by (auto simp: ordered_so_far_def)
  with BDelete assms(2) show ?thesis
    by (simp add: ordered_so_far_def body_def push_def successively_snoc)
next
  case BInsert
  have "length (originalLines s) \<le> i s \<or>
      originalLines s ! i s \<in> set (drop (Suc (j s)) (modifiedLines s))"
    using branch_BInsert_found [OF BInsert] by (cases "i s < length (originalLines s)") simp_all
  with BInsert assms(2) show ?thesis
    by (auto simp: ordered_so_far_def body_def push_def successively_snoc crossing_not_delete)
next
  case BDeleteInsert
  with branch_BDeleteInsert [of s] have lt: "i s < length (originalLines s)" by simp
  from assms(2) have "changes s = [] \<or>
      crossing (originalLines s) (modifiedLines s) (last (changes s))
        (Delete (originalLines s ! i s) (i s))"
    using pending_crossing [OF _ lt] by (auto simp: ordered_so_far_def)
  with BDeleteInsert assms(2) branch_BDeleteInsert_found [OF BDeleteInsert] show ?thesis
    by (simp add: ordered_so_far_def body_def push_def successively_append_iff)
next
  case BDrain
  with assms(1) branch_running show ?thesis by blast
qed

lemma loop_ordered_so_far: "ordered_so_far s \<Longrightarrow> ordered_so_far (loop s)"
proof (induction s rule: loop.induct)
  case (1 s)
  show ?case
  proof (cases "running s")
    case True
    with 1 body_ordered_so_far [of s] show ?thesis by (simp add: loop.simps [of s])
  next
    case False
    with 1(2) show ?thesis by (simp add: loop.simps [of s])
  qed
qed

lemma compare_crossing: "successively (crossing a b) (compareLineByLine a b)"
proof -
  have "ordered_so_far (loop (init a b))"
    by (rule loop_ordered_so_far) (simp add: ordered_so_far_def init_def)
  then show ?thesis
    by (simp add: ordered_so_far_def compareLineByLine_def loop_originalLines
        loop_modifiedLines init_def)
qed

lemma loop_disjoint:
  "set (originalLines s) \<inter> set (modifiedLines s) = {} \<Longrightarrow>
   changes (loop s)
     = changes s
       @ map (\<lambda>k. Delete (originalLines s ! k) k) [i s..<length (originalLines s)]
       @ map (\<lambda>k. Insert (modifiedLines s ! k) k) [j s..<length (modifiedLines s)]"
proof (induction s rule: loop.induct)
  case (1 s)
  show ?case
  proof (cases "running s")
    case True
    note run = True
    show ?thesis
    proof (cases "i s < length (originalLines s)")
      case True
      then have mem: "originalLines s ! i s \<in> set (originalLines s)" by simp
      with 1(2) have notin: "originalLines s ! i s \<notin> set (modifiedLines s)" by blast
      then have "originalLines s ! i s \<notin> set (drop (j s) (modifiedLines s))"
        using in_set_dropD by fast
      moreover have "j s < length (modifiedLines s) \<Longrightarrow>
          originalLines s ! i s \<noteq> modifiedLines s ! j s"
        using notin by auto
      ultimately have br: "branch s = BDelete"
        using True by (auto simp: branch_def originalLine_def modifiedLine_def elem_at_def
            originalFoundInModified_def array_includes_def)
      have "changes (loop (body s))
            = changes (body s)
              @ map (\<lambda>k. Delete (originalLines (body s) ! k) k)
                  [i (body s)..<length (originalLines (body s))]
              @ map (\<lambda>k. Insert (modifiedLines (body s) ! k) k)
                  [j (body s)..<length (modifiedLines (body s))]"
        using 1(2) br by (intro 1(1) [OF run]) (simp_all add: body_def push_def)
      with run True br show ?thesis
        by (simp add: loop.simps [of s] body_def push_def upt_conv_Cons)
    next
      case False
      with run have lt: "j s < length (modifiedLines s)" by (simp add: running_def)
      with False have br: "branch s = BInsert"
        by (simp add: branch_def modifiedFoundInOriginal_def)
      have "changes (loop (body s))
            = changes (body s)
              @ map (\<lambda>k. Delete (originalLines (body s) ! k) k)
                  [i (body s)..<length (originalLines (body s))]
              @ map (\<lambda>k. Insert (modifiedLines (body s) ! k) k)
                  [j (body s)..<length (modifiedLines (body s))]"
        using 1(2) br by (intro 1(1) [OF run]) (simp_all add: body_def push_def)
      with run False lt br show ?thesis
        by (simp add: loop.simps [of s] body_def push_def upt_conv_Cons)
    qed
  next
    case False
    then show ?thesis by (simp add: loop.simps [of s] running_def)
  qed
qed

lemma delete_priority:
  "i s < length (originalLines s) \<Longrightarrow> \<not> originalFoundInModified s \<Longrightarrow> branch s = BDelete"
  by (auto simp: branch_def originalFoundInModified_def originalLine_def modifiedLine_def
      elem_at_def array_includes_def Cons_nth_drop_Suc [symmetric])

section \<open>Longest common subsequences and the edits of a script\<close>


lemma lcs_length_attained:
  "\<exists>zs. subseq zs xs \<and> subseq zs ys \<and> length zs = lcs_length xs ys"
proof (induction xs ys rule: lcs_length.induct)
  case (1 ys)
  show ?case by (rule exI [of _ "[]"]) simp
next
  case (2 x xs)
  show ?case by (rule exI [of _ "[]"]) simp
next
  case (3 x xs y ys)
  show ?case
  proof (cases "x = y")
    case True
    with 3(1) obtain zs where "subseq zs xs" "subseq zs ys" "length zs = lcs_length xs ys"
      by blast
    with True show ?thesis by (intro exI [of _ "x # zs"]) simp
  next
    case False
    from 3(2) [OF False] obtain us where
      us: "subseq us xs" "subseq us (y # ys)" "length us = lcs_length xs (y # ys)" by blast
    from 3(3) [OF False] obtain vs where
      vs: "subseq vs (x # xs)" "subseq vs ys" "length vs = lcs_length (x # xs) ys" by blast
    show ?thesis
    proof (cases "lcs_length xs (y # ys) \<le> lcs_length (x # xs) ys")
      case True
      with vs False show ?thesis
        by (intro exI [of _ vs]) (simp add: max_def list_emb_Cons)
    next
      case le: False
      with us False show ?thesis
        by (intro exI [of _ us]) (simp add: max_def list_emb_Cons)
    qed
  qed
qed







section \<open>Splitting\<close>

lemma split_on_nonempty: "split_on sep cur text \<noteq> []"
  by (induction "text" arbitrary: cur) simp_all

lemma join_with_Cons: "ls \<noteq> [] \<Longrightarrow> join_with sep (l # ls) = l @ sep # join_with sep ls"
  by (cases ls) simp_all

lemma join_split_on: "join_with sep (split_on sep cur text) = cur @ text"
  by (induction "text" arbitrary: cur) (simp_all add: join_with_Cons split_on_nonempty)

lemma split_on_no_sep:
  "sep \<notin> set cur \<Longrightarrow> sep \<notin> set (concat (split_on sep cur text))"
proof (induction "text" arbitrary: cur)
  case Nil
  then show ?case by simp
next
  case (Cons c cs)
  show ?case
  proof (cases "c = sep")
    case True
    with Cons.prems Cons.IH [of "[]"] show ?thesis by simp
  next
    case False
    with Cons.prems Cons.IH [of "cur @ [c]"] show ?thesis by simp
  qed
qed

lemma split_on_trailing: "split_on sep cur (text @ [sep]) = split_on sep cur text @ [[]]"
  by (induction "text" arbitrary: cur) simp_all

lemma split_on_length: "length (split_on sep cur text) = Suc (count_list text sep)"
  by (induction "text" arbitrary: cur) simp_all

section \<open>The claims\<close>

subsection \<open>C1: how many edits the greedy scan emits\<close>




subsection \<open>C2: reconstruction\<close>

text \<open>
  Claim C2. For all arrays \<open>a\<close> and \<open>b\<close>, the values of the \<open>equal\<close> and \<open>delete\<close>
  entries of \<open>compareLineByLine a b\<close>, in script order, are exactly \<open>a\<close>, and the values
  of its \<open>equal\<close> and \<open>insert\<close> entries, in script order, are exactly \<open>b\<close>.
\<close>

theorem reconstruction:
  "original_side (compareLineByLine a b) = a \<and> modified_side (compareLineByLine a b) = b"
  by (simp add: original_side_def modified_side_def compare_orig_entries compare_mod_entries)

theorem reconstruction_witness:
  "original_side (compareLineByLine [''a'', ''a'', ''b''] [''a'', ''b'', ''a''])
     = [''a'', ''a'', ''b'']
   \<and> modified_side (compareLineByLine [''a'', ''a'', ''b''] [''a'', ''b'', ''a''])
     = [''a'', ''b'', ''a'']"
  using reconstruction [of "[''a'', ''a'', ''b'']" "[''a'', ''b'', ''a'']"] by simp

subsection \<open>C3: totality\<close>

text \<open>
  Claim C3. \<open>compareLineByLine\<close> is total. The main loop is a recursive function whose
  termination is proved where it is defined: every iteration strictly decreases
  \<open>(originalLines.length - i) + (modifiedLines.length - j)\<close>. The model has no failing
  branch: a read past the end of an array is the value \<open>undefined\<close>, which the guards
  handle. For every pair of arrays, the empty ones included, the loop ends in a state
  where its condition is false, and the script returned is well formed: it lists every
  index of either array exactly once, in order, with the line at that index.
\<close>

theorem total_well_formed:
  "(\<exists>s. compareLineByLine a b = s \<and> well_formed a b s) \<and> \<not> running (loop (init a b))"
  by (simp add: well_formed_def compare_orig_entries compare_mod_entries loop_final)

theorem total_well_formed_witness:
  "(\<exists>s. compareLineByLine [] [''x''] = s \<and> well_formed [] [''x''] s)
   \<and> \<not> running (loop (init [] [''x'']))"
  using total_well_formed [of "[]" "[''x'']"] by simp

subsection \<open>C4: the replacement scenario and the order of a delete and an insert\<close>

text \<open>
  Between two \<open>equal\<close> entries the scan can push an \<open>insert\<close> before a
  \<open>delete\<close>: on \<open>["p","q"]\<close> and \<open>["z","q","p"]\<close> the script starts with the insertion
  of \<open>"z"\<close> and goes on with the deletion of \<open>"p"\<close>.
\<close>

theorem delete_before_insert_counterexample:
  "compareLineByLine [''p'', ''q''] [''z'', ''q'', ''p'']
     = [Insert ''z'' 0, Delete ''p'' 0, Insert ''q'' 1, Delete ''q'' 1, Insert ''p'' 2]
   \<and> \<not> deletes_before_inserts (compareLineByLine [''p'', ''q''] [''z'', ''q'', ''p''])"
  by code_simp

text \<open>
  Claim C4, as the code has it. \<open>compareLineByLine ["a","b","c"] ["a","x","c"]\<close> is
  exactly \<open>equal "a" (0, 0)\<close>, \<open>delete "b" (1)\<close>, \<open>insert "x" (1)\<close>,
  \<open>equal "c" (2, 2)\<close>. In every script, an \<open>insert\<close> is directly followed by a
  \<open>delete\<close> only at a crossing: the inserted line occurs in the original array at or
  after the deleted index, or the deleted line occurs in the modified array after the
  inserted index; everywhere else the \<open>delete\<close> comes first. In particular two arrays
  with no line in common give all the \<open>delete\<close> entries, in index order, and then all
  the \<open>insert\<close> entries, in index order; an original line that is not found in the
  rest of the modified array is deleted by that iteration, before anything is inserted
  at that point; and among the entries one iteration pushes, no \<open>delete\<close> comes after
  an \<open>insert\<close>.
\<close>

theorem scenario_and_delete_order:
  "compareLineByLine [''a'', ''b'', ''c''] [''a'', ''x'', ''c'']
     = [Equal ''a'' 0 0, Delete ''b'' 1, Insert ''x'' 1, Equal ''c'' 2 2]
   \<and> successively (crossing a b) (compareLineByLine a b)
   \<and> (set a \<inter> set b = {} \<longrightarrow>
        compareLineByLine a b
          = map (\<lambda>k. Delete (a ! k) k) [0..<length a]
            @ map (\<lambda>k. Insert (b ! k) k) [0..<length b])
   \<and> (i s < length (originalLines s) \<and> \<not> originalFoundInModified s \<longrightarrow>
        emitted s = [Delete (originalLines s ! i s) (i s)])
   \<and> deletes_before_inserts (emitted s)"
proof -
  have scenario: "compareLineByLine [''a'', ''b'', ''c''] [''a'', ''x'', ''c'']
     = [Equal ''a'' 0 0, Delete ''b'' 1, Insert ''x'' 1, Equal ''c'' 2 2]"
    by code_simp
  have disjoint: "set a \<inter> set b = {} \<longrightarrow>
        compareLineByLine a b
          = map (\<lambda>k. Delete (a ! k) k) [0..<length a]
            @ map (\<lambda>k. Insert (b ! k) k) [0..<length b]"
    by (simp add: compareLineByLine_def init_def loop_disjoint)
  have priority: "i s < length (originalLines s) \<and> \<not> originalFoundInModified s \<longrightarrow>
        emitted s = [Delete (originalLines s ! i s) (i s)]"
  proof
    assume "i s < length (originalLines s) \<and> \<not> originalFoundInModified s"
    then have "branch s = BDelete" using delete_priority by blast
    then show "emitted s = [Delete (originalLines s ! i s) (i s)]"
      by (simp add: emitted_def body_def push_def)
  qed
  from scenario compare_crossing [of a b] disjoint priority emitted_ordered [of s]
  show ?thesis by blast
qed

theorem scenario_and_delete_order_witness:
  "set [''p'', ''q''] \<inter> set [''z''] = {}
   \<and> compareLineByLine [''p'', ''q''] [''z''] = [Delete ''p'' 0, Delete ''q'' 1, Insert ''z'' 0]
   \<and> successively (crossing [''p'', ''q''] [''z'']) (compareLineByLine [''p'', ''q''] [''z''])
   \<and> i (init [''p'', ''q''] [''z'']) < length (originalLines (init [''p'', ''q''] [''z'']))
   \<and> \<not> originalFoundInModified (init [''p'', ''q''] [''z''])
   \<and> emitted (init [''p'', ''q''] [''z'']) = [Delete ''p'' 0]
   \<and> deletes_before_inserts (emitted (init [''p'', ''q''] [''z'']))"
proof -
  have d: "set [''p'', ''q''] \<inter> set [''z''] = {}" by simp
  have p: "i (init [''p'', ''q''] [''z'']) < length (originalLines (init [''p'', ''q''] [''z'']))"
    "\<not> originalFoundInModified (init [''p'', ''q''] [''z''])"
    by (simp_all add: init_def originalFoundInModified_def originalLine_def elem_at_def
        array_includes_def)
  note t = scenario_and_delete_order [of "[''p'', ''q'']" "[''z'']" "init [''p'', ''q''] [''z'']"]
  from t d have "compareLineByLine [''p'', ''q''] [''z'']
      = map (\<lambda>k. Delete ([''p'', ''q''] ! k) k) [0..<length [''p'', ''q'']]
        @ map (\<lambda>k. Insert ([''z''] ! k) k) [0..<length [''z'']]"
    by blast
  then have script: "compareLineByLine [''p'', ''q''] [''z'']
      = [Delete ''p'' 0, Delete ''q'' 1, Insert ''z'' 0]"
    by (simp add: upt_rec)
  from t p have "emitted (init [''p'', ''q''] [''z''])
      = [Delete (originalLines (init [''p'', ''q''] [''z'']) ! i (init [''p'', ''q''] [''z'']))
           (i (init [''p'', ''q''] [''z'']))]"
    by blast
  then have pushed: "emitted (init [''p'', ''q''] [''z'']) = [Delete ''p'' 0]"
    by (simp add: init_def)
  from t have "successively (crossing [''p'', ''q''] [''z'']) (compareLineByLine [''p'', ''q''] [''z''])"
    and "deletes_before_inserts (emitted (init [''p'', ''q''] [''z'']))"
    by blast+
  with d p script pushed show ?thesis by blast
qed

subsection \<open>C5: empty inputs\<close>

text \<open>
  Claim C5. For every array \<open>a\<close>: \<open>compareLineByLine a []\<close> is one \<open>delete\<close> entry
  per element of \<open>a\<close>, in index order, and nothing else; \<open>compareLineByLine [] a\<close> is
  one \<open>insert\<close> entry per element of \<open>a\<close>, in index order, and nothing else; and
  \<open>compareLineByLine [] []\<close> is the empty script.
\<close>

theorem empty_inputs:
  "compareLineByLine a [] = map (\<lambda>k. Delete (a ! k) k) [0..<length a]
   \<and> compareLineByLine [] a = map (\<lambda>k. Insert (a ! k) k) [0..<length a]
   \<and> compareLineByLine [] [] = []"
  by (simp add: compareLineByLine_def init_def loop_modified_empty loop_original_empty)

theorem empty_inputs_witness:
  "compareLineByLine [''a'', ''b''] [] = [Delete ''a'' 0, Delete ''b'' 1]
   \<and> compareLineByLine [] [''a'', ''b''] = [Insert ''a'' 0, Insert ''b'' 1]
   \<and> compareLineByLine [] [] = []"
  using empty_inputs [of "[''a'', ''b'']"] by (simp add: upt_rec)

subsection \<open>C6: identity\<close>

text \<open>
  Claim C6. For every array \<open>a\<close>, \<open>compareLineByLine a a\<close> has only \<open>equal\<close> entries,
  one per index of \<open>a\<close> in index order: the entry for index \<open>k\<close> has
  \<open>originalIndex = k\<close>, \<open>modifiedIndex = k\<close> and the value \<open>a[k]\<close>.
\<close>

theorem identity:
  "compareLineByLine a a = map (\<lambda>k. Equal (a ! k) k k) [0..<length a]"
  by (simp add: compareLineByLine_def init_def loop_identical)

theorem identity_witness:
  "compareLineByLine [''a'', ''a'', ''b''] [''a'', ''a'', ''b'']
     = [Equal ''a'' 0 0, Equal ''a'' 1 1, Equal ''b'' 2 2]"
  using identity [of "[''a'', ''a'', ''b'']"] by (simp add: upt_rec)

subsection \<open>C7: determinism\<close>

text \<open>
  Claim C7. Two calls of \<open>compareLineByLine\<close> whose argument arrays have the same
  contents return the same script, whatever else differs between the two program states
  they are made in (what the locals held before, the rest of the state): the script is
  a function of the two arguments only.
\<close>

theorem determinism:
  "originalLines s = originalLines t \<Longrightarrow> modifiedLines s = modifiedLines t \<Longrightarrow>
   changes (invoke s) = changes (invoke t)
   \<and> changes (invoke s) = compareLineByLine (originalLines s) (modifiedLines s)"
  by (simp add: invoke_compare)

theorem determinism_witness:
  "originalLines \<lparr>originalLines = [''a'', ''b''], modifiedLines = [''b''],
                  changes = [], i = 0, j = 0\<rparr>
     = originalLines \<lparr>originalLines = [''a'', ''b''], modifiedLines = [''b''],
                       changes = [Insert ''z'' 4], i = 7, j = 9\<rparr>
   \<and> changes (invoke \<lparr>originalLines = [''a'', ''b''], modifiedLines = [''b''],
                        changes = [], i = 0, j = 0\<rparr>)
     = changes (invoke \<lparr>originalLines = [''a'', ''b''], modifiedLines = [''b''],
                          changes = [Insert ''z'' 4], i = 7, j = 9\<rparr>)
   \<and> changes (invoke \<lparr>originalLines = [''a'', ''b''], modifiedLines = [''b''],
                        changes = [Insert ''z'' 4], i = 7, j = 9\<rparr>)
     = [Delete ''a'' 0, Equal ''b'' 1 0]"
proof -
  have "changes (invoke \<lparr>originalLines = [''a'', ''b''], modifiedLines = [''b''],
                          changes = [Insert ''z'' 4], i = 7, j = 9\<rparr>)
          = [Delete ''a'' 0, Equal ''b'' 1 0]"
    by code_simp
  with determinism [of
      "\<lparr>originalLines = [''a'', ''b''], modifiedLines = [''b''], changes = [], i = 0, j = 0\<rparr>"
      "\<lparr>originalLines = [''a'', ''b''], modifiedLines = [''b''],
        changes = [Insert ''z'' 4], i = 7, j = 9\<rparr>"]
  show ?thesis by simp
qed

subsection \<open>C8: no side effects\<close>

text \<open>
  Claim C8. A call of \<open>compareLineByLine\<close> leaves its two argument arrays as they were
  and changes nothing else of the program state (only its own locals); the script it
  returns is built from the empty array on entry, so it does not depend on a script that
  existed before; and nothing persists from one call to the next: a second call made in
  the state the first one left returns the same script.
\<close>

theorem no_side_effects:
  "originalLines (invoke s) = originalLines s \<and> modifiedLines (invoke s) = modifiedLines s
   \<and> state.more (invoke s) = state.more s
   \<and> changes (invoke (s\<lparr>changes := c\<rparr>)) = changes (invoke s)
   \<and> changes (invoke (invoke s)) = changes (invoke s)"
proof -
  have fields: "originalLines (invoke s) = originalLines s"
    "modifiedLines (invoke s) = modifiedLines s" "state.more (invoke s) = state.more s"
    by (simp_all add: invoke_def loop_originalLines loop_modifiedLines loop_more)
  have fresh: "changes (invoke (s\<lparr>changes := c\<rparr>)) = changes (invoke s)"
    by (simp add: invoke_def)
  have again: "changes (invoke (invoke s)) = changes (invoke s)"
    by (simp add: invoke_compare [of "invoke s"] invoke_compare [of s] fields)
  from fields fresh again show ?thesis by blast
qed

theorem no_side_effects_witness:
  "originalLines (invoke (init [''a'', ''b''] [''b''])) = [''a'', ''b'']
   \<and> modifiedLines (invoke (init [''a'', ''b''] [''b''])) = [''b'']
   \<and> changes (invoke (invoke (init [''a'', ''b''] [''b''])))
       = changes (invoke (init [''a'', ''b''] [''b'']))
   \<and> changes (invoke (init [''a'', ''b''] [''b''])) = [Delete ''a'' 0, Equal ''b'' 1 0]"
proof -
  have "changes (invoke (init [''a'', ''b''] [''b''])) = [Delete ''a'' 0, Equal ''b'' 1 0]"
    by code_simp
  with no_side_effects [of "init [''a'', ''b''] [''b'']"] show ?thesis
    by (simp add: init_def)
qed

subsection \<open>C9: the last arm is dead code\<close>

text \<open>
  Claim C9. Whenever the condition of the main loop holds (a line of either array is
  still to be consumed), one of the first four arms is taken: the last arm, which
  drains whichever array is not exhausted, is never reached.
\<close>

theorem drain_unreachable: "running s \<Longrightarrow> branch s \<noteq> BDrain"
  by (auto simp: running_def branch_def originalFoundInModified_def
      modifiedFoundInOriginal_def)

theorem drain_unreachable_witness:
  "running (init [''a''] [''b'', ''a'']) \<and> branch (init [''a''] [''b'', ''a'']) \<noteq> BDrain"
proof -
  have r: "running (init [''a''] [''b'', ''a''])" by (simp add: running_def init_def)
  from r drain_unreachable [OF r] show ?thesis by simp
qed

subsection \<open>C10: splitting a text into lines\<close>

text \<open>
  Claim C10. \<open>toLines text\<close> cuts the text at every newline character and nowhere
  else: the result is never empty, the empty text gives one empty line, a text that
  ends in a newline gives a last empty line, there is one more line than there are
  newline characters, no line contains a newline, and joining the lines with newlines
  gives the text back, so every other character, a carriage return included, stays in
  its line.
\<close>

theorem toLines_split:
  "toLines text \<noteq> []
   \<and> toLines [] = [[]]
   \<and> toLines (text @ [newline]) = toLines text @ [[]]
   \<and> length (toLines text) = Suc (count_list text newline)
   \<and> newline \<notin> set (concat (toLines text))
   \<and> join_with newline (toLines text) = text
   \<and> toLines [CHR ''a'', carriage_return, newline, CHR ''b'']
        = [[CHR ''a'', carriage_return], [CHR ''b'']]"
proof -
  have "newline \<notin> set (concat (toLines text))"
    unfolding toLines_def by (rule split_on_no_sep) simp
  moreover have "toLines [CHR ''a'', carriage_return, newline, CHR ''b'']
        = [[CHR ''a'', carriage_return], [CHR ''b'']]"
    by (simp add: toLines_def newline_def carriage_return_def)
  ultimately show ?thesis
    by (simp add: toLines_def split_on_nonempty split_on_trailing split_on_length
        join_split_on)
qed

theorem toLines_split_witness:
  "toLines [CHR ''a'', carriage_return, newline] = [[CHR ''a'', carriage_return], []]
   \<and> toLines [CHR ''a'', carriage_return, newline] \<noteq> []
   \<and> toLines [] = [[]]
   \<and> length (toLines [CHR ''a'', carriage_return, newline]) = 2
   \<and> join_with newline (toLines [CHR ''a'', carriage_return, newline])
        = [CHR ''a'', carriage_return, newline]"
proof -
  have "toLines [CHR ''a'', carriage_return, newline] = [[CHR ''a'', carriage_return], []]"
    by (simp add: toLines_def newline_def carriage_return_def)
  with toLines_split [of "[CHR ''a'', carriage_return, newline]"] show ?thesis by simp
qed

end
